theory Spec2Isabelle
  imports Main "HOL-Library.Word" "HOL-Library.Multiset"
begin

section \<open>Data model of lab7.cpp\<close>

text \<open>
  The program sums a numeric buffer sequentially and with a fixed number of threads.
  Indices are \<open>size_t\<close> values and the thread count is an \<open>unsigned\<close>: both are
  unsigned machine integers whose arithmetic wraps around, so they are words here
  (64 and 32 bits, the widths of the usual LP64 platforms).

  The element type \<open>T\<close> is a template parameter. It is a type variable of class
  \<open>monoid_add\<close> (a zero and an associative addition), or \<open>comm_monoid_add\<close> where
  the order in which the threads merge matters. The instances are the exact integer
  types: \<open>int\<close> for an integer type whose sums stay in range, and \<open>'n word\<close> for an
  unsigned type, whose sums wrap around. Floating-point types are not instances
  (their addition is not associative) and are outside this development.
\<close>

type_synonym size_t = "64 word"
type_synonym unsigned = "32 word"

text \<open>
  The source has no error type and no check of its arguments. The error values of
  the model are the ways in which an execution does not reach its \<open>return\<close>: the
  two places where it can leave the defined behaviour of C++, which are the integer
  division by a zero thread count and a read or write of \<open>data[i]\<close> outside the
  allocated array, and the exception of a \<open>new[]\<close> that the free store cannot
  satisfy.
\<close>

datatype error = DivisionByZero | OutOfBounds | BadAlloc

text \<open>
  \<open>struct FuncResult\<close>: the fields \<open>_result\<close> and \<open>_time\<close> (microseconds), named
  \<open>FR_result\<close> and \<open>FR_time\<close> here. The constructor stores its arguments.
\<close>

record 'a FuncResult =
  FR_result :: 'a
  FR_time :: int

text \<open>
  \<open>class VectorRam\<close>: the pointer \<open>data\<close> together with the array it points to, and
  the field \<open>size\<close> (\<open>size_v\<close> here, \<open>size\<close> being a constant of HOL). The
  array is a list; the field keeps its own value, as in the source, where nothing but
  the constructor relates the two.
\<close>

record 'a VectorRam =
  data :: "'a list"
  size_v :: size_t

text \<open>The state the constructor establishes: the array has \<open>size\<close> elements.\<close>

definition wf_VectorRam :: "'a VectorRam \<Rightarrow> bool" where
  "wf_VectorRam v \<longleftrightarrow> length (data v) = unat (size_v v)"

text \<open>
  \<open>VectorRam(size_t size)\<close>: \<open>data = new T[size]\<close>. The elements of the new array are
  not initialised; \<open>mem\<close> stands for whatever the storage holds. \<open>avail\<close> is the number
  of elements the free store can still provide: beyond it \<open>new[]\<close> throws. The
  constructor has no other check; in particular \<open>new T[0]\<close> is a valid allocation.
\<close>

definition VectorRam_new :: "nat \<Rightarrow> (nat \<Rightarrow> 'a) \<Rightarrow> size_t \<Rightarrow> error + 'a VectorRam" where
  "VectorRam_new avail mem sz =
     (if unat sz \<le> avail
      then Inr \<lparr>data = map mem [0..<unat sz], size_v = sz\<rparr>
      else Inl BadAlloc)"

text \<open>
  \<open>InitByVal\<close>: \<open>for (size_t i = 0; i < size; i++) data[i] = val;\<close>. The loop
  counter is passed as an argument; the method starts it at 0.
\<close>

function InitByVal_loop :: "'a VectorRam \<Rightarrow> size_t \<Rightarrow> 'a \<Rightarrow> error + 'a VectorRam" where
  "InitByVal_loop v i val =
     (if i < size_v v
      then (if unat i < length (data v)
            then InitByVal_loop (v\<lparr>data := (data v)[unat i := val]\<rparr>) (i + 1) val
            else Inl OutOfBounds)
      else Inr v)"
  by pat_completeness auto
termination
proof (relation "measure (\<lambda>(v, i, val). unat (size_v v) - unat i)")
  show "wf (measure (\<lambda>(v, i, val). unat (size_v v) - unat i))" by simp
next
  fix v :: "'a VectorRam" and i :: size_t and val :: 'a
  assume lt: "i < size_v v"
  then have "unat i < unat (size_v v)" by (simp add: word_less_nat_alt)
  moreover have "unat (size_v v) < 2 ^ LENGTH(64)" by (rule unsigned_less)
  ultimately have "unat i + unat (1 :: size_t) < 2 ^ LENGTH(64)" by simp
  then have "unat (i + 1) = unat i + unat (1 :: size_t)" by (simp only: unat_add_lem)
  then have "unat (i + 1) = Suc (unat i)" by simp
  with lt show "((v\<lparr>data := (data v)[unat i := val]\<rparr>, i + 1, val), (v, i, val))
      \<in> measure (\<lambda>(v, i, val). unat (size_v v) - unat i)"
    by (simp add: word_less_nat_alt)
qed

declare InitByVal_loop.simps [simp del]

definition InitByVal :: "'a VectorRam \<Rightarrow> 'a \<Rightarrow> error + 'a VectorRam" where
  "InitByVal v val = InitByVal_loop v 0 val"

section \<open>Sequential reduction\<close>

text \<open>
  The loop shared by \<open>Sum(indStart, indEnd)\<close> and \<open>thread_sum\<close>:
  \<open>for (size_t i = indStart; i <= indEnd; i++) acc += data[i];\<close>
  with the running index and the accumulator as arguments. The array is the block of
  \<open>size\<close> elements that the constructor allocated: reading \<open>data[i]\<close> at an index
  outside it is the error \<open>OutOfBounds\<close>. An index is compared with \<open>indEnd\<close>
  before it is used, and is incremented in \<open>size_t\<close>. The loop returns the
  accumulator together with the buffer it leaves behind.
\<close>

function sum_loop ::
  "'a::monoid_add VectorRam \<Rightarrow> size_t \<Rightarrow> size_t \<Rightarrow> 'a \<Rightarrow> error + ('a \<times> 'a VectorRam)" where
  "sum_loop v i indEnd acc =
     (if i \<le> indEnd
      then (if i < size_v v \<and> unat i < length (data v)
            then sum_loop v (i + 1) indEnd (acc + data v ! unat i)
            else Inl OutOfBounds)
      else Inr (acc, v))"
  by pat_completeness auto
termination
proof (relation "measure (\<lambda>(v, i, indEnd, acc). unat (size_v v) - unat i)")
  show "wf (measure (\<lambda>(v, i, indEnd, acc). unat (size_v v) - unat i))" by simp
next
  fix v :: "'a VectorRam" and i indEnd :: size_t and acc :: 'a
  assume "i < size_v v \<and> unat i < length (data v)"
  then have lt: "i < size_v v" ..
  then have "unat i < unat (size_v v)" by (simp add: word_less_nat_alt)
  moreover have "unat (size_v v) < 2 ^ LENGTH(64)" by (rule unsigned_less)
  ultimately have "unat i + unat (1 :: size_t) < 2 ^ LENGTH(64)" by simp
  then have "unat (i + 1) = unat i + unat (1 :: size_t)" by (simp only: unat_add_lem)
  then have "unat (i + 1) = Suc (unat i)" by simp
  with lt show "((v, i + 1, indEnd, acc + data v ! unat i), (v, i, indEnd, acc))
      \<in> measure (\<lambda>(v, i, indEnd, acc). unat (size_v v) - unat i)"
    by (simp add: word_less_nat_alt)
qed

declare sum_loop.simps [simp del]

text \<open>\<open>T Sum(size_t indStart, size_t indEnd)\<close>: \<open>T result = 0;\<close>, the loop, \<open>return result\<close>.\<close>

definition Sum_range ::
  "'a::monoid_add VectorRam \<Rightarrow> size_t \<Rightarrow> size_t \<Rightarrow> error + ('a \<times> 'a VectorRam)" where
  "Sum_range v indStart indEnd = sum_loop v indStart indEnd 0"

text \<open>\<open>T Sum()\<close>: \<open>return Sum(0, size - 1);\<close>, the subtraction being one of \<open>size_t\<close>.\<close>

definition Sum_all :: "'a::monoid_add VectorRam \<Rightarrow> error + ('a \<times> 'a VectorRam)" where
  "Sum_all v = Sum_range v 0 (size_v v - 1)"

section \<open>Parallel reduction\<close>

text \<open>
  \<open>thread_sum(data, indStart, indEnd, sum, m)\<close>: the local sum over the range, then
  \<open>sum += local_sum\<close> under the lock. The shared \<open>sum\<close> is the argument \<open>shared\<close>
  (\<open>sum\<close> is a constant of HOL), passed in and returned.
\<close>

definition thread_sum ::
  "'a::monoid_add VectorRam \<Rightarrow> size_t \<Rightarrow> size_t \<Rightarrow> 'a \<Rightarrow> error + ('a \<times> 'a VectorRam)" where
  "thread_sum v indStart indEnd shared =
     (case sum_loop v indStart indEnd 0 of
        Inl err \<Rightarrow> Inl err
      | Inr (local_sum, v') \<Rightarrow> Inr (shared + local_sum, v'))"

text \<open>
  The body of the loop that starts the threads, for the loop counter \<open>i\<close>:
  \<open>thIndStart = indStart + i * thBlockSize\<close>, \<open>thIndEnd = thIndStart + thBlockSize - 1\<close>,
  and \<open>thIndEnd = indEnd\<close> when \<open>i == threadsNum - 1\<close>. All of it is \<open>size_t\<close>
  arithmetic, except \<open>threadsNum - 1\<close>, which is computed as an \<open>unsigned\<close> and
  then converted for the comparison.
\<close>

definition thread_bounds ::
  "size_t \<Rightarrow> size_t \<Rightarrow> unsigned \<Rightarrow> size_t \<Rightarrow> size_t \<Rightarrow> size_t \<times> size_t" where
  "thread_bounds indStart indEnd threadsNum thBlockSize i =
     (let thIndStart = indStart + i * thBlockSize;
          thIndEnd = thIndStart + thBlockSize - 1
      in (thIndStart, if i = ucast (threadsNum - 1) then indEnd else thIndEnd))"

text \<open>
  The ranges the threads are started with, in the order of their creation:
  \<open>blockSize = indEnd - indStart + 1\<close>, \<open>thBlockSize = blockSize / threadsNum\<close>, then
  one range for each \<open>i\<close> from 0 while \<open>i < threadsNum\<close>. The division is the first
  use of \<open>threadsNum\<close>, and nothing checks it before.
\<close>

definition partition_plan ::
  "size_t \<Rightarrow> size_t \<Rightarrow> unsigned \<Rightarrow> error + (size_t \<times> size_t) list" where
  "partition_plan indStart indEnd threadsNum =
     (let blockSize = indEnd - indStart + 1
      in if threadsNum = 0 then Inl DivisionByZero
         else let thBlockSize = blockSize div ucast threadsNum
              in Inr (map (\<lambda>k. thread_bounds indStart indEnd threadsNum thBlockSize (word_of_nat k))
                          [0..<unat threadsNum]))"

text \<open>
  The threads run concurrently. Each one works on variables of its own until it takes
  the lock, and the buffer is only read, so an execution is determined by the order in
  which the threads add their local sums to the shared total. That order is not fixed
  by the program: it is the parameter \<open>sched\<close>. \<open>pick_order sched ts\<close> lists the
  threads \<open>ts\<close> in the order chosen by \<open>sched\<close>: each number selects one of the
  threads that are still to merge (modulo their count), and when \<open>sched\<close> is used up
  the remaining ones merge in the order of their creation. Every list of numbers is a
  schedule, and every order is the result of one.
\<close>

fun pick_order :: "nat list \<Rightarrow> 'b list \<Rightarrow> 'b list" where
  "pick_order sched [] = []"
| "pick_order [] (t # ts) = t # ts"
| "pick_order (k # sched) (t # ts) =
     (let j = k mod Suc (length ts)
      in (t # ts) ! j # pick_order sched (take j (t # ts) @ drop (Suc j) (t # ts)))"

text \<open>
  The threads, one after the other in the order of their merges; a thread that reads
  outside the array ends the execution with the error. Starting a thread is taken to
  succeed, and the joins only wait.
\<close>

fun run_threads ::
  "'a::monoid_add VectorRam \<Rightarrow> (size_t \<times> size_t) list \<Rightarrow> 'a \<Rightarrow> error + ('a \<times> 'a VectorRam)" where
  "run_threads v [] shared = Inr (shared, v)"
| "run_threads v ((thIndStart, thIndEnd) # ts) shared =
     (case thread_sum v thIndStart thIndEnd shared of
        Inl err \<Rightarrow> Inl err
      | Inr (shared', v') \<Rightarrow> run_threads v' ts shared')"

text \<open>
  \<open>T Sum(size_t indStart, size_t indEnd, unsigned threadsNum)\<close>: \<open>T sum = 0\<close>, the
  threads on the ranges of the plan, the joins, \<open>return sum\<close>.
\<close>

definition Sum_range_par ::
  "'a::monoid_add VectorRam \<Rightarrow> size_t \<Rightarrow> size_t \<Rightarrow> unsigned \<Rightarrow> nat list
     \<Rightarrow> error + ('a \<times> 'a VectorRam)" where
  "Sum_range_par v indStart indEnd threadsNum sched =
     (case partition_plan indStart indEnd threadsNum of
        Inl err \<Rightarrow> Inl err
      | Inr plan \<Rightarrow> run_threads v (pick_order sched plan) 0)"

text \<open>\<open>T Sum(unsigned threadsNum)\<close>: \<open>return Sum(0, size - 1, threadsNum);\<close>\<close>

definition Sum_all_par ::
  "'a::monoid_add VectorRam \<Rightarrow> unsigned \<Rightarrow> nat list \<Rightarrow> error + ('a \<times> 'a VectorRam)" where
  "Sum_all_par v threadsNum sched = Sum_range_par v 0 (size_v v - 1) threadsNum sched"

section \<open>Timed variants\<close>

text \<open>
  The \<open>SumFR\<close> methods read the clock, call the corresponding \<open>Sum\<close>, read the clock
  again and return \<open>FuncResult<T>(result, t)\<close>, where \<open>t\<close> is the difference of the
  two readings in microseconds. The readings \<open>start\<close> and \<open>stop\<close> are inputs of the
  model. (The constructor takes \<open>t\<close> as a \<open>double\<close> and stores it as a
  \<open>long long\<close>, which gives \<open>t\<close> back for every duration below \<open>2^53\<close> microseconds.)
\<close>

definition timed ::
  "int \<Rightarrow> int \<Rightarrow> error + ('a \<times> 'a VectorRam) \<Rightarrow> error + ('a FuncResult \<times> 'a VectorRam)" where
  "timed start stop r =
     (case r of
        Inl err \<Rightarrow> Inl err
      | Inr (result, v') \<Rightarrow> Inr (\<lparr>FR_result = result, FR_time = stop - start\<rparr>, v'))"

definition SumFR_range ::
  "'a::monoid_add VectorRam \<Rightarrow> size_t \<Rightarrow> size_t \<Rightarrow> int \<Rightarrow> int
     \<Rightarrow> error + ('a FuncResult \<times> 'a VectorRam)" where
  "SumFR_range v indStart indEnd start stop = timed start stop (Sum_range v indStart indEnd)"

definition SumFR_all ::
  "'a::monoid_add VectorRam \<Rightarrow> int \<Rightarrow> int \<Rightarrow> error + ('a FuncResult \<times> 'a VectorRam)" where
  "SumFR_all v start stop = SumFR_range v 0 (size_v v - 1) start stop"

definition SumFR_range_par ::
  "'a::monoid_add VectorRam \<Rightarrow> size_t \<Rightarrow> size_t \<Rightarrow> unsigned \<Rightarrow> nat list \<Rightarrow> int \<Rightarrow> int
     \<Rightarrow> error + ('a FuncResult \<times> 'a VectorRam)" where
  "SumFR_range_par v indStart indEnd threadsNum sched start stop =
     timed start stop (Sum_range_par v indStart indEnd threadsNum sched)"

definition SumFR_all_par ::
  "'a::monoid_add VectorRam \<Rightarrow> unsigned \<Rightarrow> nat list \<Rightarrow> int \<Rightarrow> int
     \<Rightarrow> error + ('a FuncResult \<times> 'a VectorRam)" where
  "SumFR_all_par v threadsNum sched start stop =
     SumFR_range_par v 0 (size_v v - 1) threadsNum sched start stop"

section \<open>Notions used in the statements\<close>

text \<open>
  A range that a loop can be run on without leaving the array: its end is inside the
  array, or it is empty. And the sum of the elements of an inclusive range, read off the
  list: the range \<open>(s, e)\<close> has \<open>e + 1 - s\<close> elements, none when \<open>e < s\<close>.
\<close>

definition range_ok :: "'a VectorRam \<Rightarrow> size_t \<times> size_t \<Rightarrow> bool" where
  "range_ok v r \<longleftrightarrow> snd r < size_v v \<or> snd r < fst r"

definition range_sum :: "'a::monoid_add VectorRam \<Rightarrow> size_t \<times> size_t \<Rightarrow> 'a" where
  "range_sum v r = sum_list (take (unat (snd r) + 1 - unat (fst r)) (drop (unat (fst r)) (data v)))"

text \<open>
  The buffer an operation leaves behind, if it returns at all: \<open>None\<close> stands for
  an execution that ended in one of the errors.
\<close>

definition buffer_after :: "error + ('r \<times> 'a VectorRam) \<Rightarrow> 'a VectorRam option" where
  "buffer_after r = (case r of Inl err \<Rightarrow> None | Inr (x, v') \<Rightarrow> Some v')"

section \<open>Filling the buffer\<close>

text \<open>On a well-formed buffer \<open>InitByVal\<close> sets every element and nothing else.\<close>

lemma unat_inc: "(i :: size_t) < m \<Longrightarrow> unat (i + 1) = Suc (unat i)"
proof -
  assume "i < m"
  then have "unat i < unat m" by (simp add: word_less_nat_alt)
  moreover have "unat m < 2 ^ LENGTH(64)" by (rule unsigned_less)
  ultimately have "unat i + unat (1 :: size_t) < 2 ^ LENGTH(64)" by simp
  then have "unat (i + 1) = unat i + unat (1 :: size_t)" by (simp only: unat_add_lem)
  then show ?thesis by simp
qed

lemma InitByVal_loop_fills:
  "wf_VectorRam v \<Longrightarrow> i \<le> size_v v \<Longrightarrow>
   InitByVal_loop v i val
     = Inr (v\<lparr>data := take (unat i) (data v) @ replicate (unat (size_v v) - unat i) val\<rparr>)"
proof (induction v i val rule: InitByVal_loop.induct)
  case (1 v i val)
  show ?case
  proof (cases "i < size_v v")
    case True
    let ?v' = "v\<lparr>data := (data v)[unat i := val]\<rparr>"
    have len: "unat i < length (data v)"
      using True "1.prems"(1) by (simp add: wf_VectorRam_def word_less_nat_alt)
    have inc: "unat (i + 1) = Suc (unat i)" using True by (rule unat_inc)
    have lt: "unat i < unat (size_v v)" using True by (simp add: word_less_nat_alt)
    have "wf_VectorRam ?v'" using "1.prems"(1) by (simp add: wf_VectorRam_def)
    moreover have "i + 1 \<le> size_v ?v'" using True by (simp add: inc_le)
    ultimately have "InitByVal_loop ?v' (i + 1) val
        = Inr (?v'\<lparr>data := take (unat (i + 1)) (data ?v')
                           @ replicate (unat (size_v ?v') - unat (i + 1)) val\<rparr>)"
      using True len by (intro "1.IH") simp_all
    moreover have "take (Suc (unat i)) ((data v)[unat i := val]) = take (unat i) (data v) @ [val]"
      using len by (simp add: take_Suc_conv_app_nth)
    moreover have "unat (size_v v) - unat i = Suc (unat (size_v v) - Suc (unat i))"
      using lt by simp
    ultimately show ?thesis
      using True len by (subst InitByVal_loop.simps) (simp add: inc)
  next
    case False
    with "1.prems"(2) have "i = size_v v" by simp
    with "1.prems"(1) show ?thesis
      by (subst InitByVal_loop.simps) (simp add: wf_VectorRam_def)
  qed
qed

lemma InitByVal_fills:
  "wf_VectorRam v \<Longrightarrow> InitByVal v val = Inr (v\<lparr>data := replicate (unat (size_v v)) val\<rparr>)"
  by (simp add: InitByVal_def InitByVal_loop_fills)

section \<open>The loop\<close>

lemma sum_loop_empty: "indEnd < i \<Longrightarrow> sum_loop v i indEnd acc = Inr (acc, v)"
proof -
  assume "indEnd < i"
  then have "\<not> i \<le> indEnd" by simp
  then show ?thesis by (subst sum_loop.simps) simp
qed

lemma sum_loop_frame: "sum_loop v i indEnd acc = Inr (r, v') \<Longrightarrow> v' = v"
proof (induction v i indEnd acc rule: sum_loop.induct)
  case (1 v i indEnd acc)
  from "1.prems" show ?case
    by (subst (asm) sum_loop.simps) (auto split: if_splits dest: "1.IH")
qed

lemma sum_loop_error: "sum_loop v i indEnd acc = Inl err \<Longrightarrow> err = OutOfBounds"
proof (induction v i indEnd acc rule: sum_loop.induct)
  case (1 v i indEnd acc)
  from "1.prems" show ?case
    by (subst (asm) sum_loop.simps) (auto split: if_splits dest: "1.IH")
qed

lemma sum_loop_overrun:
  "size_v v \<le> indEnd \<Longrightarrow> i \<le> indEnd \<Longrightarrow> sum_loop v i indEnd acc = Inl OutOfBounds"
proof (induction v i indEnd acc rule: sum_loop.induct)
  case (1 v i indEnd acc)
  show ?case
  proof (cases "i < size_v v \<and> unat i < length (data v)")
    case True
    then have "i < indEnd" using "1.prems"(1) by auto
    then have "i + 1 \<le> indEnd" by (rule inc_le)
    with True "1.prems" "1.IH" have "sum_loop v (i + 1) indEnd (acc + data v ! unat i) = Inl OutOfBounds"
      by simp
    with True "1.prems"(2) show ?thesis by (subst sum_loop.simps) simp
  next
    case False
    with "1.prems"(2) show ?thesis by (subst sum_loop.simps) auto
  qed
qed

lemma sum_loop_valid:
  "wf_VectorRam v \<Longrightarrow> indEnd < size_v v \<or> indEnd < i \<Longrightarrow>
   sum_loop v i indEnd acc = Inr (acc + range_sum v (i, indEnd), v)"
proof (induction v i indEnd acc rule: sum_loop.induct)
  case (1 v i indEnd acc)
  show ?case
  proof (cases "i \<le> indEnd")
    case True
    with "1.prems"(2) have e: "indEnd < size_v v" by auto
    with True have lt: "i < size_v v" by simp
    then have len: "unat i < length (data v)"
      using "1.prems"(1) by (simp add: wf_VectorRam_def word_less_nat_alt)
    have inc: "unat (i + 1) = Suc (unat i)" using lt by (rule unat_inc)
    have ie: "unat i \<le> unat indEnd" using True by (simp add: word_le_nat_alt)
    have "sum_loop v (i + 1) indEnd (acc + data v ! unat i)
            = Inr (acc + data v ! unat i + range_sum v (i + 1, indEnd), v)"
      using True lt len "1.prems"(1) e by (intro "1.IH") simp_all
    moreover have "range_sum v (i, indEnd) = data v ! unat i + range_sum v (i + 1, indEnd)"
    proof -
      have "drop (unat i) (data v) = data v ! unat i # drop (Suc (unat i)) (data v)"
        using len by (simp add: Cons_nth_drop_Suc)
      moreover have "unat indEnd + 1 - unat i = Suc (unat indEnd + 1 - Suc (unat i))"
        using ie by simp
      ultimately show ?thesis by (simp add: range_sum_def inc)
    qed
    ultimately show ?thesis
      using True lt len by (subst sum_loop.simps) (simp add: add.assoc)
  next
    case False
    then have "unat indEnd + 1 - unat i = 0" by (simp add: word_le_nat_alt)
    with False show ?thesis by (subst sum_loop.simps) (simp add: range_sum_def)
  qed
qed

section \<open>Threads\<close>

lemma thread_sum_valid:
  "wf_VectorRam v \<Longrightarrow> range_ok v (s, e) \<Longrightarrow>
   thread_sum v s e shared = Inr (shared + range_sum v (s, e), v)"
  by (simp add: thread_sum_def range_ok_def sum_loop_valid)

lemma thread_sum_frame: "thread_sum v s e shared = Inr (r, v') \<Longrightarrow> v' = v"
  by (auto simp: thread_sum_def split: sum.splits dest: sum_loop_frame)

lemma thread_sum_error: "thread_sum v s e shared = Inl err \<Longrightarrow> err = OutOfBounds"
  by (auto simp: thread_sum_def split: sum.splits dest: sum_loop_error)

lemma thread_sum_overrun:
  "size_v v \<le> e \<Longrightarrow> s \<le> e \<Longrightarrow> thread_sum v s e shared = Inl OutOfBounds"
  by (simp add: thread_sum_def sum_loop_overrun)

lemma run_threads_valid:
  "wf_VectorRam v \<Longrightarrow> \<forall>r \<in> set ts. range_ok v r \<Longrightarrow>
   run_threads v ts shared = Inr (shared + sum_list (map (range_sum v) ts), v)"
proof (induction ts arbitrary: shared)
  case Nil
  show ?case by simp
next
  case (Cons r ts)
  obtain s e where r: "r = (s, e)" by (cases r)
  from Cons.prems have "thread_sum v s e shared = Inr (shared + range_sum v (s, e), v)"
    by (simp add: r thread_sum_valid)
  moreover from Cons.prems
  have "run_threads v ts (shared + range_sum v (s, e))
          = Inr (shared + range_sum v (s, e) + sum_list (map (range_sum v) ts), v)"
    by (intro Cons.IH) simp_all
  ultimately show ?case by (simp add: r add.assoc)
qed

lemma run_threads_frame: "run_threads v ts shared = Inr (r, v') \<Longrightarrow> v' = v"
proof (induction ts arbitrary: shared v)
  case Nil
  then show ?case by simp
next
  case (Cons t ts)
  obtain s e where t: "t = (s, e)" by (cases t)
  from Cons.prems obtain x w where
    1: "thread_sum v s e shared = Inr (x, w)" and 2: "run_threads w ts x = Inr (r, v')"
    by (auto simp: t split: sum.splits)
  from 1 have "w = v" by (rule thread_sum_frame)
  moreover from 2 have "v' = w" by (rule Cons.IH)
  ultimately show ?case by simp
qed

lemma run_threads_error: "run_threads v ts shared = Inl err \<Longrightarrow> err = OutOfBounds"
proof (induction ts arbitrary: shared v)
  case Nil
  then show ?case by simp
next
  case (Cons t ts)
  obtain s e where t: "t = (s, e)" by (cases t)
  from Cons.prems show ?case
    by (auto simp: t split: sum.splits dest: thread_sum_error Cons.IH)
qed

lemma run_threads_overrun:
  "(s, e) \<in> set ts \<Longrightarrow> size_v v \<le> e \<Longrightarrow> s \<le> e \<Longrightarrow> run_threads v ts shared = Inl OutOfBounds"
proof (induction ts arbitrary: shared)
  case Nil
  then show ?case by simp
next
  case (Cons t ts)
  obtain s' e' where t: "t = (s', e')" by (cases t)
  show ?case
  proof (cases "thread_sum v s' e' shared")
    case (Inl err)
    then have "err = OutOfBounds" by (rule thread_sum_error)
    with Inl show ?thesis by (simp add: t)
  next
    case (Inr p)
    obtain x w where p: "p = (x, w)" by (cases p)
    from Inr have w: "w = v" unfolding p by (rule thread_sum_frame)
    have "t \<noteq> (s, e)"
    proof
      assume "t = (s, e)"
      with t Cons.prems(2,3) have "thread_sum v s' e' shared = Inl OutOfBounds"
        by (simp add: thread_sum_overrun)
      with Inr show False by simp
    qed
    with Cons.prems(1) have "(s, e) \<in> set ts" by simp
    then have "run_threads v ts x = Inl OutOfBounds"
      using Cons.prems(2,3) by (rule Cons.IH)
    with Inr show ?thesis by (simp add: t p w)
  qed
qed

section \<open>Schedules\<close>

text \<open>A schedule only reorders the threads.\<close>

lemma mset_pick_order: "mset (pick_order sched ts) = mset ts"
proof (induction sched ts rule: pick_order.induct)
  case (1 sched)
  show ?case by simp
next
  case (2 t ts)
  show ?case by simp
next
  case (3 k sched t ts)
  define j where "j = k mod Suc (length ts)"
  have j: "j < length (t # ts)" by (simp add: j_def)
  have "mset (pick_order sched (take j (t # ts) @ drop (Suc j) (t # ts)))
          = mset (take j (t # ts) @ drop (Suc j) (t # ts))"
    using "3.IH" [of j] by (simp add: j_def)
  then have "mset (pick_order (k # sched) (t # ts))
          = mset (take j (t # ts) @ (t # ts) ! j # drop (Suc j) (t # ts))"
    by (simp add: j_def Let_def del: take_Cons' nth_Cons' drop_Suc_Cons)
  also have "take j (t # ts) @ (t # ts) ! j # drop (Suc j) (t # ts) = t # ts"
    using j by (rule id_take_nth_drop [symmetric])
  finally show ?case .
qed

lemma set_pick_order: "set (pick_order sched ts) = set ts"
  using mset_pick_order [of sched ts] by (metis set_mset_mset)

lemma sum_list_pick_order:
  fixes f :: "'b \<Rightarrow> 'a::comm_monoid_add"
  shows "sum_list (map f (pick_order sched ts)) = sum_list (map f ts)"
proof -
  have "sum_mset (image_mset f (mset (pick_order sched ts))) = sum_mset (image_mset f (mset ts))"
    by (simp add: mset_pick_order)
  then show ?thesis by (simp add: sum_mset_sum_list del: mset_map flip: mset_map)
qed

section \<open>Index arithmetic\<close>

text \<open>
  The thread count converts to \<open>size_t\<close> without loss, and the indices of the plan
  are the natural numbers one expects as long as they stay below \<open>2^64\<close>.
\<close>

lemma unat_ucast_threads: "unat (ucast (n :: unsigned) :: size_t) = unat n"
proof -
  have "unat n < 2 ^ LENGTH(32)" by (rule unsigned_less)
  then have "unat n < 2 ^ 64" by simp
  then show ?thesis by (simp add: unsigned_ucast_eq take_bit_nat_eq_self_iff)
qed

lemma unat_of_nat_size_t: "m < 2 ^ 64 \<Longrightarrow> unat (word_of_nat m :: size_t) = m"
  by (simp add: unat_of_nat)

lemma unat_thread_index: "k < unat (n :: unsigned) \<Longrightarrow> unat (word_of_nat k :: size_t) = k"
proof -
  assume "k < unat n"
  moreover have "unat n < 2 ^ LENGTH(32)" by (rule unsigned_less)
  ultimately have "k < 2 ^ 64" by simp
  then show ?thesis by (rule unat_of_nat_size_t)
qed

lemma last_thread_iff:
  assumes "n \<noteq> 0" and "k < unat (n :: unsigned)"
  shows "(word_of_nat k :: size_t) = ucast (n - 1) \<longleftrightarrow> k = unat n - 1"
proof -
  have "unat (ucast (n - 1) :: size_t) = unat n - 1"
    using assms(1) by (simp add: unat_ucast_threads unat_minus_one)
  moreover have "unat (word_of_nat k :: size_t) = k"
    using assms(2) by (rule unat_thread_index)
  ultimately show ?thesis by (simp add: word_unat_eq_iff)
qed

lemma unat_thread_start:
  assumes "unat s + k * unat b < 2 ^ 64"
  shows "unat (s + word_of_nat k * b :: size_t) = unat s + k * unat b"
proof -
  have "s + word_of_nat k * b = word_of_nat (unat s + k * unat b)" by simp
  then show ?thesis using assms by (simp only: unat_of_nat_size_t)
qed

lemma unat_thread_end:
  assumes "unat x + unat b < 2 ^ 64" and "0 < unat x + unat b"
  shows "unat (x + b - 1 :: size_t) = unat x + unat b - 1"
proof -
  have 1: "unat (x + b) = unat x + unat b"
    using assms(1) by (simp add: unat_add_lem [THEN iffD1])
  with assms(2) have "x + b \<noteq> 0" by (metis less_numeral_extra(3) unsigned_0)
  then have "unat (x + b - 1) = unat (x + b) - 1" by (rule unat_minus_one)
  with 1 show ?thesis by simp
qed

lemma unat_blockSize:
  assumes "s \<le> e" and "e < (m :: size_t)"
  shows "unat (e - s + 1) = unat e + 1 - unat s"
proof -
  have "unat (e - s) = unat e - unat s" using assms(1) by (rule unat_sub)
  moreover have "e - s \<le> e" using assms(1) by (simp add: word_sub_le)
  then have "e - s < m" using assms(2) by simp
  then have "unat (e - s + 1) = Suc (unat (e - s))" by (rule unat_inc)
  moreover have "unat s \<le> unat e" using assms(1) by (simp add: word_le_nat_alt)
  ultimately show ?thesis by simp
qed

section \<open>The partition plan\<close>

text \<open>
  On a range inside the array, and unless the range starts at index 0 with a block
  size of 0, every thread but the last gets \<open>thBlockSize\<close> consecutive
  elements (none when the block size is 0), and the last one the rest up to \<open>indEnd\<close>.
\<close>

lemma unat_thBlockSize:
  assumes "s \<le> e" and "e < (m :: size_t)"
  shows "unat ((e - s + 1) div ucast (n :: unsigned)) = (unat e + 1 - unat s) div unat n"
  using assms by (simp add: unat_div unat_ucast_threads unat_blockSize)

lemma plan_bound:
  assumes "s \<le> e" and "e < (m :: size_t)" and "j \<le> unat (n :: unsigned)"
  shows "unat s + j * unat ((e - s + 1) div ucast n) \<le> unat e + 1"
proof -
  let ?B = "(unat e + 1 - unat s) div unat n"
  have "j * ?B \<le> unat n * ?B" using assms(3) by (rule mult_le_mono1)
  also have "\<dots> \<le> unat e + 1 - unat s" by simp
  finally have "j * ?B \<le> unat e + 1 - unat s" .
  moreover have "unat s \<le> unat e" using assms(1) by (simp add: word_le_nat_alt)
  ultimately show ?thesis using assms(1,2) by (simp add: unat_thBlockSize)
qed

lemma unat_index_bound:
  assumes "e < (m :: size_t)"
  shows "unat e + 1 < 2 ^ 64"
proof -
  have "unat e < unat m" using assms by (simp add: word_less_nat_alt)
  moreover have "unat m < 2 ^ LENGTH(64)" by (rule unsigned_less)
  ultimately show ?thesis by simp
qed

lemma plan_nonlast:
  fixes v :: "'a::monoid_add VectorRam"
  assumes se: "s \<le> e" and em: "e < size_v v" and k: "Suc k < unat n"
    and nowrap: "s \<noteq> 0 \<or> ucast n \<le> e - s + 1"
  defines "b \<equiv> (e - s + 1) div ucast n"
  shows "range_ok v (thread_bounds s e n b (word_of_nat k)) \<and>
         range_sum v (thread_bounds s e n b (word_of_nat k))
           = sum_list (take (unat b) (drop (unat s + k * unat b) (data v)))"
proof -
  have n0: "n \<noteq> 0" using k by auto
  have E64: "unat e + 1 < 2 ^ 64" using em by (rule unat_index_bound)
  have "unat s + Suc k * unat b \<le> unat e + 1"
    unfolding b_def using se em by (rule plan_bound) (use k in simp)
  then have bound: "unat s + k * unat b + unat b \<le> unat e + 1" by (simp add: add.assoc)
  have start: "unat (s + word_of_nat k * b) = unat s + k * unat b"
    using bound E64 by (intro unat_thread_start) simp
  have "(word_of_nat k :: size_t) \<noteq> ucast (n - 1)"
    using n0 k by (simp add: last_thread_iff)
  then have tb: "thread_bounds s e n b (word_of_nat k)
      = (s + word_of_nat k * b, s + word_of_nat k * b + b - 1)"
    by (simp add: thread_bounds_def Let_def)
  show ?thesis
  proof (cases "unat b = 0")
    case True
    then have b0: "b = 0" by (simp add: unat_eq_0)
    have "s \<noteq> 0"
    proof
      assume s0: "s = 0"
      with nowrap have "ucast n \<le> e - s + 1" by simp
      then have "unat n \<le> unat e + 1 - unat s"
        using se em by (simp add: word_le_nat_alt unat_ucast_threads unat_blockSize)
      moreover have "0 < unat n" using n0 by (simp add: unat_gt_0)
      ultimately have "0 < (unat e + 1 - unat s) div unat n" by (simp add: div_greater_zero_iff)
      then have "0 < unat b" unfolding b_def using se em by (simp add: unat_thBlockSize)
      with True show False by simp
    qed
    then have "unat (s - 1) = unat s - 1" and "0 < unat s"
      by (simp_all add: unat_minus_one unat_gt_0)
    then have "s - 1 < s" by (simp add: word_less_nat_alt)
    moreover have "thread_bounds s e n b (word_of_nat k) = (s, s - 1)"
      unfolding tb by (simp add: b0)
    ultimately show ?thesis
      using \<open>unat (s - 1) = unat s - 1\<close> \<open>0 < unat s\<close>
      by (simp add: range_ok_def range_sum_def True)
  next
    case False
    have "unat (s + word_of_nat k * b + b - 1) = unat (s + word_of_nat k * b) + unat b - 1"
      using bound E64 False by (intro unat_thread_end) (simp_all add: start)
    then have fin: "unat (s + word_of_nat k * b + b - 1) = unat s + k * unat b + unat b - 1"
      by (simp add: start)
    with bound False have "unat (s + word_of_nat k * b + b - 1) < unat (size_v v)"
      using em by (simp add: word_less_nat_alt)
    then have "s + word_of_nat k * b + b - 1 < size_v v" by (simp add: word_less_nat_alt)
    moreover have "unat s + k * unat b + unat b - 1 + 1 - (unat s + k * unat b) = unat b"
      using False by simp
    ultimately show ?thesis
      by (simp add: tb range_ok_def range_sum_def fin start)
  qed
qed

lemma plan_last:
  fixes v :: "'a::monoid_add VectorRam"
  assumes se: "s \<le> e" and em: "e < size_v v" and k: "Suc k = unat n"
  defines "b \<equiv> (e - s + 1) div ucast n"
  shows "range_ok v (thread_bounds s e n b (word_of_nat k)) \<and>
         range_sum v (thread_bounds s e n b (word_of_nat k))
           = sum_list (take (unat e + 1 - (unat s + k * unat b)) (drop (unat s + k * unat b) (data v)))"
proof -
  have n0: "n \<noteq> 0" using k by auto
  have E64: "unat e + 1 < 2 ^ 64" using em by (rule unat_index_bound)
  have bound: "unat s + k * unat b \<le> unat e + 1"
    unfolding b_def using se em by (rule plan_bound) (use k in simp)
  have start: "unat (s + word_of_nat k * b) = unat s + k * unat b"
    using bound E64 by (intro unat_thread_start) simp
  have "(word_of_nat k :: size_t) = ucast (n - 1)"
    using n0 k by (subst last_thread_iff) simp_all
  then have tb: "thread_bounds s e n b (word_of_nat k) = (s + word_of_nat k * b, e)"
    by (simp add: thread_bounds_def Let_def)
  show ?thesis using em by (simp add: tb range_ok_def range_sum_def start)
qed

lemma sum_list_blocks:
  fixes xs :: "'a::monoid_add list"
  shows "sum_list (map (\<lambda>k. sum_list (take B (drop (S + k * B) xs))) [0..<M])
           = sum_list (take (M * B) (drop S xs))"
proof (induction M)
  case 0
  show ?case by simp
next
  case (Suc M)
  have "sum_list (take (M * B + B) (drop S xs))
          = sum_list (take (M * B) (drop S xs)) + sum_list (take B (drop (S + M * B) xs))"
  proof -
    have "take (M * B + B) (drop S xs)
            = take (M * B) (drop S xs) @ take B (drop (M * B) (drop S xs))"
      by (rule take_add)
    moreover have "drop (M * B) (drop S xs) = drop (S + M * B) xs"
      by (simp add: add.commute)
    ultimately show ?thesis by simp
  qed
  moreover have "Suc M * B = M * B + B" by simp
  ultimately have "sum_list (take (Suc M * B) (drop S xs))
          = sum_list (take (M * B) (drop S xs)) + sum_list (take B (drop (S + M * B) xs))"
    by (simp only:)
  with Suc show ?case by (simp del: mult_Suc)
qed

lemma partition_plan_valid:
  fixes v :: "'a::monoid_add VectorRam"
  assumes se: "s \<le> e" and em: "e < size_v v" and n0: "n \<noteq> 0"
    and nowrap: "s \<noteq> 0 \<or> ucast n \<le> e - s + 1"
  shows "\<exists>plan. partition_plan s e n = Inr plan \<and> (\<forall>r \<in> set plan. range_ok v r) \<and>
           sum_list (map (range_sum v) plan) = range_sum v (s, e)"
proof -
  define b where "b = (e - s + 1) div ucast n"
  define f where "f = (\<lambda>k. thread_bounds s e n b (word_of_nat k))"
  define M where "M = unat n - 1"
  have N: "unat n = Suc M" using n0 by (simp add: M_def unat_gt_0)
  have plan: "partition_plan s e n = Inr (map f [0..<Suc M])"
    using n0 by (simp add: partition_plan_def Let_def f_def b_def N)
  have nonlast: "range_ok v (f k) \<and>
      range_sum v (f k) = sum_list (take (unat b) (drop (unat s + k * unat b) (data v)))"
    if "k < M" for k
    unfolding f_def b_def using se em _ nowrap by (rule plan_nonlast) (use that N in simp)
  have last: "range_ok v (f M) \<and>
      range_sum v (f M)
        = sum_list (take (unat e + 1 - (unat s + M * unat b)) (drop (unat s + M * unat b) (data v)))"
    unfolding f_def b_def using se em by (rule plan_last) (simp add: N)
  have ok: "\<forall>r \<in> set (map f [0..<Suc M]). range_ok v r"
    using nonlast last by (auto simp: less_Suc_eq)
  have "unat s + M * unat b \<le> unat e + 1"
    unfolding b_def using se em by (rule plan_bound) (simp add: N)
  then have split: "unat e + 1 - unat s = M * unat b + (unat e + 1 - (unat s + M * unat b))"
    by simp
  have "map (range_sum v) (map f [0..<M])
          = map (\<lambda>k. sum_list (take (unat b) (drop (unat s + k * unat b) (data v)))) [0..<M]"
    using nonlast by simp
  then have "sum_list (map (range_sum v) (map f [0..<M]))
          = sum_list (take (M * unat b) (drop (unat s) (data v)))"
    by (simp only: sum_list_blocks)
  then have "sum_list (map (range_sum v) (map f [0..<Suc M]))
          = sum_list (take (M * unat b) (drop (unat s) (data v)))
            + sum_list (take (unat e + 1 - (unat s + M * unat b))
                         (drop (unat s + M * unat b) (data v)))"
    using last by simp
  also have "\<dots> = sum_list (take (unat e + 1 - unat s) (drop (unat s) (data v)))"
    by (subst split, subst take_add) (simp add: add.commute)
  finally have "sum_list (map (range_sum v) (map f [0..<Suc M])) = range_sum v (s, e)"
    by (simp add: range_sum_def)
  with plan ok show ?thesis by blast
qed

section \<open>Sequential and parallel sums on a valid range\<close>

text \<open>
  On a range inside the array the sequential sum returns the sum of the range. So does
  the parallel sum, whatever the order of the merges, for a thread count that is not 0
  and unless the range starts at index 0 and has fewer elements than there are threads.
\<close>

lemma Sum_range_valid:
  "wf_VectorRam v \<Longrightarrow> e < size_v v \<or> e < s \<Longrightarrow> Sum_range v s e = Inr (range_sum v (s, e), v)"
  by (simp add: Sum_range_def sum_loop_valid)

lemma Sum_range_par_valid:
  fixes v :: "'a::comm_monoid_add VectorRam"
  assumes wf: "wf_VectorRam v" and se: "s \<le> e" and em: "e < size_v v" and n0: "n \<noteq> 0"
    and nowrap: "s \<noteq> 0 \<or> ucast n \<le> e - s + 1"
  shows "Sum_range_par v s e n sched = Inr (range_sum v (s, e), v)"
proof -
  from se em n0 nowrap obtain plan where
    plan: "partition_plan s e n = Inr plan" and ok: "\<forall>r \<in> set plan. range_ok v r" and
    total: "sum_list (map (range_sum v) plan) = range_sum v (s, e)"
    using partition_plan_valid [of s e v n] by blast
  from ok have "\<forall>r \<in> set (pick_order sched plan). range_ok v r"
    by (simp add: set_pick_order)
  with wf have "run_threads v (pick_order sched plan) 0
      = Inr (0 + sum_list (map (range_sum v) (pick_order sched plan)), v)"
    by (rule run_threads_valid)
  then show ?thesis
    by (simp add: Sum_range_par_def plan sum_list_pick_order total)
qed

lemma Sum_range_par_returns:
  fixes v :: "'a::monoid_add VectorRam"
  assumes wf: "wf_VectorRam v" and se: "s \<le> e" and em: "e < size_v v" and n0: "n \<noteq> 0"
    and nowrap: "s \<noteq> 0 \<or> ucast n \<le> e - s + 1"
  shows "\<exists>r. Sum_range_par v s e n sched = Inr (r, v)"
proof -
  from se em n0 nowrap obtain plan where
    plan: "partition_plan s e n = Inr plan" and ok: "\<forall>r \<in> set plan. range_ok v r"
    using partition_plan_valid [of s e v n] by blast
  from ok have "\<forall>r \<in> set (pick_order sched plan). range_ok v r"
    by (simp add: set_pick_order)
  with wf have "run_threads v (pick_order sched plan) 0
      = Inr (0 + sum_list (map (range_sum v) (pick_order sched plan)), v)"
    by (rule run_threads_valid)
  then show ?thesis by (simp add: Sum_range_par_def plan)
qed

lemma buffer_after_Sum_range: "buffer_after (Sum_range v s e) \<in> {None, Some v}"
  by (auto simp: buffer_after_def Sum_range_def split: sum.splits dest: sum_loop_frame)

lemma buffer_after_Sum_range_par: "buffer_after (Sum_range_par v s e n sched) \<in> {None, Some v}"
  by (auto simp: buffer_after_def Sum_range_par_def split: sum.splits dest: run_threads_frame)

lemma buffer_after_timed: "buffer_after (timed start stop r) = buffer_after r"
  by (simp add: buffer_after_def timed_def split: sum.splits prod.splits)

lemma partition_plan_nth:
  assumes "n \<noteq> 0" and "k < unat n"
  shows "\<exists>plan. partition_plan s e n = Inr plan \<and> length plan = unat n \<and>
           plan ! k = thread_bounds s e n ((e - s + 1) div ucast n) (word_of_nat k)"
  using assms by (simp add: partition_plan_def Let_def)

lemma Sum_range_par_end_max:
  fixes v :: "'a::monoid_add VectorRam"
  assumes n0: "n \<noteq> 0"
  shows "Sum_range_par v s (- 1) n sched = Inl OutOfBounds"
proof -
  define k where "k = unat n - 1"
  have k: "k < unat n" using n0 by (simp add: k_def unat_gt_0)
  from n0 k obtain plan where plan: "partition_plan s (- 1) n = Inr plan"
    and len: "length plan = unat n"
    and nth: "plan ! k = thread_bounds s (- 1) n ((- 1 - s + 1) div ucast n) (word_of_nat k)"
    using partition_plan_nth [of n k s "- 1"] by blast
  have "(word_of_nat k :: size_t) = ucast (n - 1) \<longleftrightarrow> k = unat n - 1"
    using n0 k by (rule last_thread_iff)
  then have "(word_of_nat k :: size_t) = ucast (n - 1)"
    by (simp only: k_def)
  then obtain x where "plan ! k = (x, - 1)"
    by (simp add: nth thread_bounds_def Let_def)
  with k len have "(x, - 1) \<in> set plan" by (metis nth_mem)
  then have "(x, - 1) \<in> set (pick_order sched plan)" by (simp only: set_pick_order)
  then have "run_threads v (pick_order sched plan) 0 = Inl OutOfBounds"
    by (rule run_threads_overrun) simp_all
  then show ?thesis by (simp add: Sum_range_par_def plan)
qed

lemma range_sum_full:
  assumes "wf_VectorRam v" and "size_v v \<noteq> 0"
  shows "range_sum v (0, size_v v - 1) = sum_list (data v)"
proof -
  have "unat (size_v v - 1) = unat (size_v v) - 1" and "0 < unat (size_v v)"
    using assms(2) by (simp_all add: unat_minus_one unat_gt_0)
  then show ?thesis using assms(1) by (simp add: range_sum_def wf_VectorRam_def)
qed

section \<open>The full-range overloads\<close>

text \<open>
  Each of the four full-range overloads calls its ranged variant with the start index 0
  and the end index \<open>size - 1\<close>, computed in \<open>size_t\<close>. For a size of at least 1
  the end index is the last index of the buffer; on a well-formed buffer the
  sequential overloads then return the sum of all its elements, and the parallel ones
  do so for a thread count between 1 and the size. For a size of 0 the end index wraps
  around to \<open>2^64 - 1\<close>, and every overload reads outside the array.
\<close>

lemma full_range_overloads_valid:
  fixes v :: "'a::comm_monoid_add VectorRam"
  shows
  "Sum_all v = Sum_range v 0 (size_v v - 1) \<and>
   Sum_all_par v n sched = Sum_range_par v 0 (size_v v - 1) n sched \<and>
   SumFR_all v start stop = SumFR_range v 0 (size_v v - 1) start stop \<and>
   SumFR_all_par v n sched start stop = SumFR_range_par v 0 (size_v v - 1) n sched start stop \<and>
   (1 \<le> size_v v \<longrightarrow>
      unat (size_v v - 1) = unat (size_v v) - 1 \<and> size_v v - 1 < size_v v \<and>
      (wf_VectorRam v \<longrightarrow>
         Sum_all v = Inr (sum_list (data v), v) \<and>
         SumFR_all v start stop
           = Inr (\<lparr>FR_result = sum_list (data v), FR_time = stop - start\<rparr>, v) \<and>
         (n \<noteq> 0 \<and> ucast n \<le> size_v v \<longrightarrow>
            Sum_all_par v n sched = Inr (sum_list (data v), v) \<and>
            SumFR_all_par v n sched start stop
              = Inr (\<lparr>FR_result = sum_list (data v), FR_time = stop - start\<rparr>, v)))) \<and>
   (size_v v = 0 \<longrightarrow>
      unat (size_v v - 1) = 2 ^ 64 - 1 \<and>
      Sum_all v = Inl OutOfBounds \<and>
      SumFR_all v start stop = Inl OutOfBounds \<and>
      (n \<noteq> 0 \<longrightarrow>
         Sum_all_par v n sched = Inl OutOfBounds \<and>
         SumFR_all_par v n sched start stop = Inl OutOfBounds))"
proof (intro conjI impI; (elim conjE)?)
  show "Sum_all v = Sum_range v 0 (size_v v - 1)" by (simp add: Sum_all_def)
  show "Sum_all_par v n sched = Sum_range_par v 0 (size_v v - 1) n sched"
    by (simp add: Sum_all_par_def)
  show "SumFR_all v start stop = SumFR_range v 0 (size_v v - 1) start stop"
    by (simp add: SumFR_all_def)
  show "SumFR_all_par v n sched start stop
          = SumFR_range_par v 0 (size_v v - 1) n sched start stop"
    by (simp add: SumFR_all_par_def)
next
  assume "1 \<le> size_v v"
  then have nz: "size_v v \<noteq> 0" by auto
  then show u: "unat (size_v v - 1) = unat (size_v v) - 1" by (rule unat_minus_one)
  have pos: "0 < unat (size_v v)" using nz by (simp add: unat_gt_0)
  with u show lt: "size_v v - 1 < size_v v" by (simp add: word_less_nat_alt)
  assume wf: "wf_VectorRam v"
  have full: "range_sum v (0, size_v v - 1) = sum_list (data v)"
    using wf nz by (rule range_sum_full)
  from wf lt show seq: "Sum_all v = Inr (sum_list (data v), v)"
    by (simp add: Sum_all_def Sum_range_valid full)
  then show "SumFR_all v start stop
          = Inr (\<lparr>FR_result = sum_list (data v), FR_time = stop - start\<rparr>, v)"
    by (simp add: SumFR_all_def SumFR_range_def timed_def flip: Sum_all_def)
  assume n: "n \<noteq> 0" "ucast n \<le> size_v v"
  have "Sum_range_par v 0 (size_v v - 1) n sched = Inr (range_sum v (0, size_v v - 1), v)"
    using wf _ lt n(1) by (rule Sum_range_par_valid) (simp_all add: n(2))
  then show par: "Sum_all_par v n sched = Inr (sum_list (data v), v)"
    by (simp add: Sum_all_par_def full)
  then show "SumFR_all_par v n sched start stop
          = Inr (\<lparr>FR_result = sum_list (data v), FR_time = stop - start\<rparr>, v)"
    by (simp add: SumFR_all_par_def SumFR_range_par_def timed_def flip: Sum_all_par_def)
next
  assume z: "size_v v = 0"
  show "unat (size_v v - 1) = 2 ^ 64 - 1"
    by (simp add: z unsigned_minus_1_eq_mask mask_eq_exp_minus_1)
  have "sum_loop v 0 (- 1) 0 = Inl OutOfBounds" by (rule sum_loop_overrun) simp_all
  then show seq: "Sum_all v = Inl OutOfBounds" by (simp add: Sum_all_def Sum_range_def z)
  then show "SumFR_all v start stop = Inl OutOfBounds"
    by (simp add: SumFR_all_def SumFR_range_def timed_def flip: Sum_all_def)
  assume "n \<noteq> 0"
  then have "Sum_range_par v 0 (- 1) n sched = Inl OutOfBounds" by (rule Sum_range_par_end_max)
  then show par: "Sum_all_par v n sched = Inl OutOfBounds" by (simp add: Sum_all_par_def z)
  then show "SumFR_all_par v n sched start stop = Inl OutOfBounds"
    by (simp add: SumFR_all_par_def SumFR_range_par_def timed_def flip: Sum_all_par_def)
qed

section \<open>The claims\<close>

text \<open>
  C1. The plan is claimed to give every worker but the last the range
  \<open>[start + i*b, start + (i+1)*b - 1]\<close> and the last one the rest, the ranges being
  contiguous, disjoint and covering exactly the input range. The code computes the end
  of a range as \<open>thIndStart + thBlockSize - 1\<close> in \<open>size_t\<close>: for the range
  \<open>[0, 0]\<close> and two workers the block size is 0 and the first worker gets the range
  from 0 to \<open>2^64 - 1\<close>, which is not empty, leaves the input range and contains the
  range of the second worker. (Lemma \<open>partition_plan_valid\<close> is the property where the
  range does not start at 0 or has as many elements as there are workers.)
\<close>

theorem partition_plan_wraps_at_start_0:
  "partition_plan 0 0 2 = Inr [(0, 18446744073709551615), (0, 0)]"
  by (simp add: partition_plan_def thread_bounds_def Let_def upt_rec)

text \<open>
  C2. The parallel sum is claimed to return the value of the sequential sum on every
  full range and for every worker count of at least 1. For a buffer of one element and
  two workers the sequential sum returns the element, and the parallel sum reads
  outside the array, under every order of the merges: the first worker runs from index
  0 to \<open>2^64 - 1\<close>. (Lemma \<open>Sum_range_par_valid\<close> with \<open>Sum_range_valid\<close> is the
  equality where the range does not start at 0 or has as many elements as there are
  workers.)
\<close>

theorem Sum_all_par_one_element_two_threads:
  "Sum_all \<lparr>data = [5 :: int], size_v = 1\<rparr> = Inr (5, \<lparr>data = [5], size_v = 1\<rparr>) \<and>
   Sum_all_par \<lparr>data = [5 :: int], size_v = 1\<rparr> 2 sched = Inl OutOfBounds"
proof
  show "Sum_all \<lparr>data = [5 :: int], size_v = 1\<rparr> = Inr (5, \<lparr>data = [5], size_v = 1\<rparr>)"
    by (simp add: Sum_all_def Sum_range_def sum_loop.simps)
next
  let ?v = "\<lparr>data = [5 :: int], size_v = 1\<rparr>"
  have plan: "partition_plan 0 0 2 = Inr [(0, 18446744073709551615), (0, 0)]"
    by (simp add: partition_plan_def thread_bounds_def Let_def upt_rec)
  have "(0, 18446744073709551615)
          \<in> set (pick_order sched [(0, 18446744073709551615), (0, 0 :: size_t)])"
    by (simp add: set_pick_order)
  then have "run_threads ?v (pick_order sched [(0, 18446744073709551615), (0, 0)]) 0
               = Inl OutOfBounds"
    by (rule run_threads_overrun) simp_all
  then show "Sum_all_par ?v 2 sched = Inl OutOfBounds"
    by (simp add: Sum_all_par_def Sum_range_par_def plan del: pick_order.simps)
qed

text \<open>
  C3. With a worker count of 0 the parallel sum is claimed to fail with an
  invalid-argument error and never to divide by zero. The code has no such check:
  for every buffer, range and schedule the computation of the block size divides by
  the zero thread count, in the plan, in the parallel sum and in its timed variant.
\<close>

theorem Sum_range_par_zero_threads:
  "partition_plan indStart indEnd 0 = Inl DivisionByZero \<and>
   Sum_range_par v indStart indEnd 0 sched = Inl DivisionByZero \<and>
   SumFR_range_par v indStart indEnd 0 sched start stop = Inl DivisionByZero"
  by (simp add: partition_plan_def Sum_range_par_def SumFR_range_par_def timed_def)

text \<open>
  C4. For a buffer of one element and eight workers it is claimed that one worker
  contributes the element, that the other seven contribute zero without iterating, and
  that the total is the element. In the code the block size is 0 and the range starts
  at 0, so each of the first seven threads is started on the range from 0 to
  \<open>2^64 - 1\<close>: such a thread reads outside the array, and so does the parallel sum,
  under every order of the merges. The sequential sum returns the element.
\<close>

theorem Sum_all_par_one_element_eight_threads:
  "partition_plan 0 0 8
     = Inr [(0, 18446744073709551615), (0, 18446744073709551615), (0, 18446744073709551615),
            (0, 18446744073709551615), (0, 18446744073709551615), (0, 18446744073709551615),
            (0, 18446744073709551615), (0, 0)] \<and>
   Sum_all \<lparr>data = [x], size_v = 1\<rparr> = Inr (x, \<lparr>data = [x], size_v = 1\<rparr>) \<and>
   thread_sum \<lparr>data = [x], size_v = 1\<rparr> 0 18446744073709551615 shared = Inl OutOfBounds \<and>
   Sum_all_par \<lparr>data = [x], size_v = 1\<rparr> 8 sched = Inl OutOfBounds"
proof (intro conjI)
  let ?v = "\<lparr>data = [x], size_v = 1\<rparr>"
  let ?plan = "[(0, 18446744073709551615), (0, 18446744073709551615), (0, 18446744073709551615),
            (0, 18446744073709551615), (0, 18446744073709551615), (0, 18446744073709551615),
            (0, 18446744073709551615), (0, 0 :: size_t)]"
  show plan: "partition_plan 0 0 8 = Inr ?plan"
    by (simp add: partition_plan_def thread_bounds_def Let_def upt_rec)
  show "Sum_all ?v = Inr (x, ?v)"
    by (simp add: Sum_all_def Sum_range_def sum_loop.simps)
  show "thread_sum ?v 0 18446744073709551615 shared = Inl OutOfBounds"
    by (rule thread_sum_overrun) simp_all
  have "(0, 18446744073709551615) \<in> set ?plan" by simp
  then have "(0, 18446744073709551615) \<in> set (pick_order sched ?plan)"
    by (simp only: set_pick_order)
  then have "run_threads ?v (pick_order sched ?plan) 0 = Inl OutOfBounds"
    by (rule run_threads_overrun) simp_all
  then show "Sum_all_par ?v 8 sched = Inl OutOfBounds"
    by (simp add: Sum_all_par_def Sum_range_par_def plan del: pick_order.simps)
qed

text \<open>
  C5. For a buffer of eight elements equal to 1 and three workers, the partitions are
  claimed to be \<open>[0,2]\<close>, \<open>[3,5]\<close>, \<open>[6,7]\<close>. They are not: the block size is
  \<open>8 / 3 = 2\<close>, rounded down.
\<close>

theorem partition_plan_8_elements_3_threads_counterexample:
  "partition_plan 0 7 3 \<noteq> Inr [(0, 2), (3, 5), (6, 7)]"
  by (simp add: partition_plan_def thread_bounds_def Let_def upt_rec)

text \<open>
  C5, as the code has it: filling a buffer of length 8 with 1 gives eight elements
  equal to 1, whatever the storage held before; on that buffer and with three workers
  the partitions are \<open>[0,1]\<close>, \<open>[2,3]\<close>, \<open>[4,7]\<close> (of lengths 2, 2 and 4, the
  last worker taking the remainder), the local sums of the three workers are 2, 2 and
  4, and the merged total is 8 under every order of the merges; the buffer is left as
  it was. This holds for every element type with a 1.
\<close>

theorem Sum_all_par_8_ones_3_threads:
  fixes v :: "'a::comm_semiring_1 VectorRam"
  defines "v \<equiv> \<lparr>data = replicate 8 1, size_v = 8\<rparr>"
  shows
  "InitByVal \<lparr>data = map mem [0..<8], size_v = 8\<rparr> 1 = Inr v \<and>
   partition_plan 0 (size_v v - 1) 3 = Inr [(0, 1), (2, 3), (4, 7)] \<and>
   thread_sum v 0 1 0 = Inr (2, v) \<and>
   thread_sum v 2 3 0 = Inr (2, v) \<and>
   thread_sum v 4 7 0 = Inr (4, v) \<and>
   Sum_all_par v 3 sched = Inr (8, v)"
proof (intro conjI)
  have wf: "wf_VectorRam v" by (simp add: v_def wf_VectorRam_def)
  have ok: "range_ok v (0, 1)" "range_ok v (2, 3)" "range_ok v (4, 7)"
    by (simp_all add: range_ok_def v_def)
  have sums: "range_sum v (0, 1) = 2" "range_sum v (2, 3) = 2" "range_sum v (4, 7) = 4"
    "range_sum v (0, 7) = 8"
    by (simp_all add: range_sum_def v_def sum_list_replicate)
  show "InitByVal \<lparr>data = map mem [0..<8], size_v = 8\<rparr> 1 = Inr v"
    by (simp add: InitByVal_fills wf_VectorRam_def v_def)
  show "partition_plan 0 (size_v v - 1) 3 = Inr [(0, 1), (2, 3), (4, 7)]"
    by (simp add: v_def partition_plan_def thread_bounds_def Let_def upt_rec)
  show "thread_sum v 0 1 0 = Inr (2, v)"
    using thread_sum_valid [OF wf ok(1), of 0] by (simp add: sums)
  show "thread_sum v 2 3 0 = Inr (2, v)"
    using thread_sum_valid [OF wf ok(2), of 0] by (simp add: sums)
  show "thread_sum v 4 7 0 = Inr (4, v)"
    using thread_sum_valid [OF wf ok(3), of 0] by (simp add: sums)
  have "Sum_range_par v 0 7 3 sched = Inr (range_sum v (0, 7), v)"
    using wf by (rule Sum_range_par_valid) (simp_all add: v_def)
  moreover have "size_v v - 1 = 7" by (simp add: v_def)
  ultimately show "Sum_all_par v 3 sched = Inr (8, v)"
    by (simp add: Sum_all_par_def sums)
qed

text \<open>
  C6. The timing wrapper does not alter the result of the operation it wraps: for every
  buffer, range, thread count, order of the merges and pair of clock readings, the
  \<open>_result\<close> field of what \<open>SumFR\<close> returns, with the buffer it leaves, is what the
  corresponding \<open>Sum\<close> returns on the same arguments, and \<open>SumFR\<close> ends in an
  error exactly when \<open>Sum\<close> does, with the same error. This holds for the four
  overloads.
\<close>

theorem SumFR_result_is_Sum:
  "map_sum id (map_prod FR_result id) (SumFR_range v indStart indEnd start stop)
     = Sum_range v indStart indEnd \<and>
   map_sum id (map_prod FR_result id) (SumFR_range_par v indStart indEnd threadsNum sched start stop)
     = Sum_range_par v indStart indEnd threadsNum sched \<and>
   map_sum id (map_prod FR_result id) (SumFR_all v start stop) = Sum_all v \<and>
   map_sum id (map_prod FR_result id) (SumFR_all_par v threadsNum sched start stop)
     = Sum_all_par v threadsNum sched"
  by (simp add: SumFR_range_def SumFR_range_par_def SumFR_all_def SumFR_all_par_def
      Sum_all_def Sum_all_par_def timed_def split: sum.splits)

text \<open>
  C7. Creating a buffer of length 0 is claimed to fail with an invalid-argument error.
  The constructor has no check on the length: with nothing left in the free store, and
  whatever the storage holds, the creation of a buffer of length 0 succeeds and gives an
  empty buffer.
\<close>

theorem VectorRam_new_length_0_counterexample:
  "VectorRam_new 0 int 0 = Inr \<lparr>data = [], size_v = 0\<rparr>"
  by (simp add: VectorRam_new_def)

text \<open>
  C7, as the code has it: the constructor fails only when the free store cannot
  provide the requested number of elements, and when it succeeds the buffer has
  storage for exactly the requested number of elements, which is also the value of its
  \<open>size\<close> field. Length 0 is no exception: it gives the empty buffer.
\<close>

theorem VectorRam_new_allocates:
  "(case VectorRam_new avail mem sz of
      Inl err \<Rightarrow> err = BadAlloc \<and> avail < unat sz
    | Inr v \<Rightarrow> length (data v) = unat sz \<and> size_v v = sz \<and> wf_VectorRam v) \<and>
   VectorRam_new avail mem 0 = Inr \<lparr>data = [], size_v = 0\<rparr>"
  by (simp add: VectorRam_new_def wf_VectorRam_def)

text \<open>
  C8. Every reduction leaves the buffer as it found it. Whenever the sequential sum,
  the parallel sum or one of their timed variants returns, the buffer after the call
  is the buffer before the call, for every buffer, range, thread count and order of the
  merges. And on a range inside a well-formed buffer they do return: the sequential
  sum and its timed variant always, the parallel ones for a thread count that is not 0
  and unless the range starts at index 0 and has fewer elements than there are threads.
\<close>

theorem reductions_leave_buffer:
  fixes v :: "'a::monoid_add VectorRam"
  shows
  "buffer_after (Sum_range v s e) \<in> {None, Some v} \<and>
   buffer_after (Sum_range_par v s e n sched) \<in> {None, Some v} \<and>
   buffer_after (SumFR_range v s e start stop) \<in> {None, Some v} \<and>
   buffer_after (SumFR_range_par v s e n sched start stop) \<in> {None, Some v} \<and>
   (wf_VectorRam v \<and> s \<le> e \<and> e < size_v v \<longrightarrow>
      buffer_after (Sum_range v s e) = Some v \<and>
      buffer_after (SumFR_range v s e start stop) = Some v \<and>
      (n \<noteq> 0 \<and> (s \<noteq> 0 \<or> ucast n \<le> e - s + 1) \<longrightarrow>
         buffer_after (Sum_range_par v s e n sched) = Some v \<and>
         buffer_after (SumFR_range_par v s e n sched start stop) = Some v))"
proof (intro conjI impI; (elim conjE)?)
  show "buffer_after (Sum_range v s e) \<in> {None, Some v}"
    by (rule buffer_after_Sum_range)
  show "buffer_after (Sum_range_par v s e n sched) \<in> {None, Some v}"
    by (rule buffer_after_Sum_range_par)
  show "buffer_after (SumFR_range v s e start stop) \<in> {None, Some v}"
    unfolding SumFR_range_def buffer_after_timed by (rule buffer_after_Sum_range)
  show "buffer_after (SumFR_range_par v s e n sched start stop) \<in> {None, Some v}"
    unfolding SumFR_range_par_def buffer_after_timed by (rule buffer_after_Sum_range_par)
next
  assume a: "wf_VectorRam v" "s \<le> e" "e < size_v v"
  then show seq: "buffer_after (Sum_range v s e) = Some v"
    by (simp add: Sum_range_valid buffer_after_def)
  then show "buffer_after (SumFR_range v s e start stop) = Some v"
    by (simp add: SumFR_range_def buffer_after_timed)
  assume b: "n \<noteq> 0" "s \<noteq> 0 \<or> ucast n \<le> e - s + 1"
  with a obtain r where "Sum_range_par v s e n sched = Inr (r, v)"
    using Sum_range_par_returns [of v s e n sched] by blast
  then show par: "buffer_after (Sum_range_par v s e n sched) = Some v"
    by (simp add: buffer_after_def)
  then show "buffer_after (SumFR_range_par v s e n sched start stop) = Some v"
    by (simp add: SumFR_range_par_def buffer_after_timed)
qed

theorem reductions_leave_buffer_witness:
  "buffer_after (Sum_range \<lparr>data = [1, 2, 3 :: int], size_v = 3\<rparr> 0 2)
     = Some \<lparr>data = [1, 2, 3], size_v = 3\<rparr> \<and>
   buffer_after (SumFR_range \<lparr>data = [1, 2, 3 :: int], size_v = 3\<rparr> 0 2 10 25)
     = Some \<lparr>data = [1, 2, 3], size_v = 3\<rparr> \<and>
   buffer_after (Sum_range_par \<lparr>data = [1, 2, 3 :: int], size_v = 3\<rparr> 0 2 2 [1])
     = Some \<lparr>data = [1, 2, 3], size_v = 3\<rparr> \<and>
   buffer_after (SumFR_range_par \<lparr>data = [1, 2, 3 :: int], size_v = 3\<rparr> 0 2 2 [1] 10 25)
     = Some \<lparr>data = [1, 2, 3], size_v = 3\<rparr>"
  using reductions_leave_buffer [of "\<lparr>data = [1, 2, 3 :: int], size_v = 3\<rparr>" 0 2 2 "[1]" 10 25]
  by (simp add: wf_VectorRam_def)

text \<open>
  C9. A thread that is not the last one and has a block size of 0 is started on the
  range from \<open>indStart\<close> to \<open>indStart - 1\<close>, the subtraction being one of
  \<open>size_t\<close>. When \<open>indStart\<close> is at least 1, the end is below the start: the loop
  of the thread makes no iteration and reads nothing (this holds for every buffer,
  whatever its length), its local sum is 0 and it leaves the shared total as it is.
  When \<open>indStart\<close> is 0, the subtraction wraps around to \<open>2^64 - 1\<close>, the range is
  not empty, and the thread reads outside the array. So an empty partition is skipped
  only under the precondition that the start index is at least 1.
\<close>

theorem zero_block_thread:
  fixes v :: "'a::monoid_add VectorRam"
  assumes "i \<noteq> ucast (threadsNum - 1)"
  shows
  "thread_bounds indStart indEnd threadsNum 0 i = (indStart, indStart - 1) \<and>
   (1 \<le> indStart \<longrightarrow>
      indStart - 1 < indStart \<and>
      sum_loop v indStart (indStart - 1) 0 = Inr (0, v) \<and>
      thread_sum v indStart (indStart - 1) shared = Inr (shared, v)) \<and>
   (indStart = 0 \<longrightarrow>
      unat (indStart - 1) = 2 ^ 64 - 1 \<and>
      sum_loop v indStart (indStart - 1) 0 = Inl OutOfBounds \<and>
      thread_sum v indStart (indStart - 1) shared = Inl OutOfBounds)"
proof (intro conjI impI)
  show "thread_bounds indStart indEnd threadsNum 0 i = (indStart, indStart - 1)"
    using assms by (simp add: thread_bounds_def)
next
  assume "1 \<le> indStart"
  then have "indStart \<noteq> 0" by auto
  then have "unat (indStart - 1) = unat indStart - 1" and "0 < unat indStart"
    by (simp_all add: unat_minus_one unat_gt_0)
  then show lt: "indStart - 1 < indStart" by (simp add: word_less_nat_alt)
  then show loop: "sum_loop v indStart (indStart - 1) 0 = Inr (0, v)"
    by (rule sum_loop_empty)
  then show "thread_sum v indStart (indStart - 1) shared = Inr (shared, v)"
    by (simp add: thread_sum_def)
next
  assume z: "indStart = 0"
  show "unat (indStart - 1) = 2 ^ 64 - 1"
    by (simp add: z unsigned_minus_1_eq_mask mask_eq_exp_minus_1)
  have "size_v v \<le> indStart - 1" "indStart \<le> indStart - 1" by (simp_all add: z)
  then show "sum_loop v indStart (indStart - 1) 0 = Inl OutOfBounds"
    by (rule sum_loop_overrun)
  then show "thread_sum v indStart (indStart - 1) shared = Inl OutOfBounds"
    by (simp add: thread_sum_def)
qed

theorem zero_block_thread_witness:
  "thread_bounds 3 9 4 0 0 = (3, 2) \<and>
   sum_loop \<lparr>data = [10, 20, 30, 40 :: int], size_v = 4\<rparr> 3 2 0
     = Inr (0, \<lparr>data = [10, 20, 30, 40], size_v = 4\<rparr>) \<and>
   thread_sum \<lparr>data = [10, 20, 30, 40 :: int], size_v = 4\<rparr> 3 2 7
     = Inr (7, \<lparr>data = [10, 20, 30, 40], size_v = 4\<rparr>) \<and>
   thread_bounds 0 3 8 0 0 = (0, - 1) \<and>
   unat (- 1 :: size_t) = 18446744073709551615 \<and>
   thread_sum \<lparr>data = [10, 20, 30, 40 :: int], size_v = 4\<rparr> 0 (- 1) 7 = Inl OutOfBounds"
  using zero_block_thread [of 0 4 3 9 "\<lparr>data = [10, 20, 30, 40 :: int], size_v = 4\<rparr>" 7]
    zero_block_thread [of 0 8 0 3 "\<lparr>data = [10, 20, 30, 40 :: int], size_v = 4\<rparr>" 7]
  by (simp add: unsigned_minus_1_eq_mask mask_eq_exp_minus_1)

text \<open>
  C10. Each of the four full-range overloads is claimed to reduce exactly the range
  from 0 to \<open>size - 1\<close> once the size is at least 1. Take a buffer of one element:
  it is well-formed, its size is 1, and the end index \<open>size - 1\<close> is 0 without any
  wrap. The sequential overloads \<open>Sum()\<close> and \<open>SumFR()\<close> return the element. The
  parallel overloads \<open>Sum(2)\<close> and \<open>SumFR(2)\<close> do not: the block size is 0 and
  the range starts at 0, so the first thread is started on the range from 0 to
  \<open>2^64 - 1\<close> and reads outside the array, under every order of the merges. (Lemma
  \<open>full_range_overloads_valid\<close> is the property for the sequential overloads, and
  for the parallel ones with a thread count between 1 and the size.)
\<close>

theorem full_range_par_overloads_one_element_two_threads:
  "wf_VectorRam \<lparr>data = [x], size_v = 1\<rparr> \<and>
   1 \<le> size_v \<lparr>data = [x], size_v = 1\<rparr> \<and>
   size_v \<lparr>data = [x], size_v = 1\<rparr> - 1 = 0 \<and>
   Sum_all \<lparr>data = [x], size_v = 1\<rparr> = Inr (x, \<lparr>data = [x], size_v = 1\<rparr>) \<and>
   SumFR_all \<lparr>data = [x], size_v = 1\<rparr> start stop
     = Inr (\<lparr>FR_result = x, FR_time = stop - start\<rparr>, \<lparr>data = [x], size_v = 1\<rparr>) \<and>
   Sum_all_par \<lparr>data = [x], size_v = 1\<rparr> 2 sched = Inl OutOfBounds \<and>
   SumFR_all_par \<lparr>data = [x], size_v = 1\<rparr> 2 sched start stop = Inl OutOfBounds"
proof (intro conjI)
  let ?v = "\<lparr>data = [x], size_v = 1\<rparr>"
  show "wf_VectorRam ?v" by (simp add: wf_VectorRam_def)
  show "1 \<le> size_v ?v" by simp
  show "size_v ?v - 1 = 0" by simp
  show seq: "Sum_all ?v = Inr (x, ?v)"
    by (simp add: Sum_all_def Sum_range_def sum_loop.simps)
  show "SumFR_all ?v start stop = Inr (\<lparr>FR_result = x, FR_time = stop - start\<rparr>, ?v)"
    using seq by (simp add: SumFR_all_def SumFR_range_def timed_def Sum_all_def)
  have plan: "partition_plan 0 0 2 = Inr [(0, 18446744073709551615), (0, 0)]"
    by (simp add: partition_plan_def thread_bounds_def Let_def upt_rec)
  have "(0, 18446744073709551615)
          \<in> set (pick_order sched [(0, 18446744073709551615), (0, 0 :: size_t)])"
    by (simp add: set_pick_order)
  then have "run_threads ?v (pick_order sched [(0, 18446744073709551615), (0, 0)]) 0
               = Inl OutOfBounds"
    by (rule run_threads_overrun) simp_all
  then have par: "Sum_range_par ?v 0 0 2 sched = Inl OutOfBounds"
    by (simp add: Sum_range_par_def plan del: pick_order.simps)
  then show "Sum_all_par ?v 2 sched = Inl OutOfBounds"
    by (simp add: Sum_all_par_def)
  from par show "SumFR_all_par ?v 2 sched start stop = Inl OutOfBounds"
    by (simp add: SumFR_all_par_def SumFR_range_par_def timed_def)
qed

end
